theory Spec2Isabelle
  imports Main "HOL-Library.AList"
begin

section \<open>Common data\<close>

text \<open>
  Vertex identifiers are strings.  Python exceptions are values of \<open>error\<close>; a function
  that can raise returns \<open>error + 'a\<close>, with \<open>Inl\<close> for the exception.
\<close>

type_synonym vid = string

datatype error = KeyError | IndexError | ValueError | NameError

text \<open>
  A Python \<open>dict\<close> keeps its keys in insertion order, and an assignment to an existing
  key keeps the key's position.  It is modelled as an association list: \<open>map_of\<close>
  reads, \<open>AList.update\<close> writes (in place for an existing key, at the end for a new
  one), \<open>map fst\<close> lists the keys in iteration order.
\<close>

definition getitem :: "('k \<times> 'v) list \<Rightarrow> 'k \<Rightarrow> error + 'v" where
  "getitem d k = (case map_of d k of None \<Rightarrow> Inl KeyError | Some v \<Rightarrow> Inr v)"

section \<open>The unweighted graph (graphs/graph.py)\<close>

record Graph =
  vertex_dict :: "(vid \<times> vid list) list"
  is_directed :: bool

definition Graph_init :: "bool \<Rightarrow> Graph" where
  "Graph_init directed = \<lparr>vertex_dict = [], is_directed = directed\<rparr>"

definition add_vertex :: "Graph \<Rightarrow> vid \<Rightarrow> Graph" where
  "add_vertex g vertex_id = g\<lparr>vertex_dict := AList.update vertex_id [] (vertex_dict g)\<rparr>"

definition add_edge :: "Graph \<Rightarrow> vid \<Rightarrow> vid \<Rightarrow> error + Graph" where
  "add_edge g start_id end_id =
     (case getitem (vertex_dict g) start_id of
        Inl e \<Rightarrow> Inl e
      | Inr adj \<Rightarrow> Inr (g\<lparr>vertex_dict := AList.update start_id (adj @ [end_id]) (vertex_dict g)\<rparr>))"

definition contains_vertex :: "Graph \<Rightarrow> vid \<Rightarrow> bool" where
  "contains_vertex g vertex_id = (vertex_id \<in> set (map fst (vertex_dict g)))"

definition get_vertices :: "Graph \<Rightarrow> vid list" where
  "get_vertices g = map fst (vertex_dict g)"

text \<open>
  \<open>get_neighbors\<close>, undirected branch: the loop over the keys of \<open>vertex_dict\<close> that
  appends every vertex whose stored list contains \<open>start_id\<close> to the local list
  \<open>neighbors\<close>.
\<close>

fun reverse_neighbors :: "(vid \<times> vid list) list \<Rightarrow> vid \<Rightarrow> vid list \<Rightarrow> vid list \<Rightarrow> error + vid list" where
  "reverse_neighbors d start_id [] neighbors = Inr neighbors"
| "reverse_neighbors d start_id (vertex # rest) neighbors =
     (case getitem d vertex of
        Inl e \<Rightarrow> Inl e
      | Inr adj \<Rightarrow>
          reverse_neighbors d start_id rest
            (if start_id \<in> set adj then neighbors @ [vertex] else neighbors))"

definition get_neighbors :: "Graph \<Rightarrow> vid \<Rightarrow> error + vid list" where
  "get_neighbors g start_id =
     (if is_directed g then getitem (vertex_dict g) start_id
      else
        (case reverse_neighbors (vertex_dict g) start_id (map fst (vertex_dict g)) [] of
           Inl e \<Rightarrow> Inl e
         | Inr neighbors \<Rightarrow>
             (case getitem (vertex_dict g) start_id of
                Inl e \<Rightarrow> Inl e
              | Inr adj \<Rightarrow> Inr (neighbors @ adj))))"

text \<open>The stored adjacency list of a vertex (empty for an id that is not a key).\<close>

definition stored :: "Graph \<Rightarrow> vid \<Rightarrow> vid list" where
  "stored g v = (case map_of (vertex_dict g) v of None \<Rightarrow> [] | Some adj \<Rightarrow> adj)"

subsection \<open>Neighbour query\<close>

lemma getitem_key:
  "k \<in> set (map fst d) \<Longrightarrow> \<exists>v. getitem d k = Inr v \<and> map_of d k = Some v"
  by (cases "map_of d k") (auto simp: getitem_def map_of_eq_None_iff)

lemma reverse_neighbors_filter:
  "set ks \<subseteq> set (map fst d) \<Longrightarrow>
   reverse_neighbors d i ks acc =
     Inr (acc @ filter (\<lambda>v. i \<in> set (case map_of d v of None \<Rightarrow> [] | Some adj \<Rightarrow> adj)) ks)"
proof (induction ks arbitrary: acc)
  case Nil
  then show ?case by simp
next
  case (Cons k ks)
  from Cons.prems have "k \<in> set (map fst d)" by simp
  from getitem_key [OF this]
  obtain adj where a: "getitem d k = Inr adj" "map_of d k = Some adj"
    by auto
  from Cons.prems have sub: "set ks \<subseteq> set (map fst d)" by simp
  from Cons.IH [OF sub] a show ?case by simp
qed

text \<open>
  C8.  For a vertex id that is a key of the graph: in a directed graph \<open>get_neighbors\<close>
  returns the stored adjacency list as it is (same order, duplicates kept); in an
  undirected graph it returns first every vertex whose stored list contains the id, in
  the iteration order of the vertex dictionary, and then the id's own stored list.  The
  function only reads the dictionary: it returns a list and no graph.
\<close>

theorem get_neighbors_spec:
  assumes "map_of (vertex_dict g) i = Some adj"
  shows "get_neighbors g i =
           Inr (if is_directed g then adj
                else filter (\<lambda>v. i \<in> set (stored g v)) (get_vertices g) @ adj)"
proof -
  have g: "getitem (vertex_dict g) i = Inr adj"
    using assms by (simp add: getitem_def)
  have "reverse_neighbors (vertex_dict g) i (map fst (vertex_dict g)) [] =
          Inr (filter (\<lambda>v. i \<in> set (stored g v)) (get_vertices g))"
    using reverse_neighbors_filter [of "map fst (vertex_dict g)" "vertex_dict g" i "[]"]
    by (simp add: stored_def get_vertices_def)
  with g show ?thesis by (simp add: get_neighbors_def)
qed

text \<open>
  The undirected graph with vertices A, B, C (added in this order) and stored edges
  A-B, C-A, A-B: the neighbours of A are C (reverse, from the scan of the keys) and then
  the stored B, B.
\<close>

definition g_nb :: Graph where
  "g_nb = \<lparr>vertex_dict = [(''A'', [''B'', ''B'']), (''B'', []), (''C'', [''A''])],
           is_directed = False\<rparr>"

theorem get_neighbors_spec_witness:
  "map_of (vertex_dict g_nb) ''A'' = Some [''B'', ''B''] \<and>
   get_neighbors g_nb ''A'' = Inr [''C'', ''B'', ''B'']"
proof -
  have h: "map_of (vertex_dict g_nb) ''A'' = Some [''B'', ''B'']"
    by (simp add: g_nb_def)
  show ?thesis
    using h get_neighbors_spec [OF h]
    by (simp add: g_nb_def stored_def get_vertices_def)
qed

definition ids :: "Graph \<Rightarrow> vid set" where
  "ids g = set (concat (map (\<lambda>(k, adj). k # adj) (vertex_dict g)))"

fun visit_neighbors :: "vid list \<Rightarrow> vid set \<Rightarrow> vid list \<Rightarrow> vid set \<times> vid list" where
  "visit_neighbors [] seen queue = (seen, queue)"
| "visit_neighbors (neighbor_id # rest) seen queue =
     (if neighbor_id \<notin> seen
      then visit_neighbors rest (insert neighbor_id seen) (queue @ [neighbor_id])
      else visit_neighbors rest seen queue)"

lemma finite_ids: "finite (ids g)"
  unfolding ids_def by (rule finite_set)

lemma key_in_ids: "k \<in> set (map fst (vertex_dict g)) \<Longrightarrow> k \<in> ids g"
  by (force simp: ids_def)

lemma stored_in_ids: "map_of (vertex_dict g) k = Some adj \<Longrightarrow> set adj \<subseteq> ids g"
proof -
  assume "map_of (vertex_dict g) k = Some adj"
  then have "(k, adj) \<in> set (vertex_dict g)" by (rule map_of_SomeD)
  then show ?thesis by (force simp: ids_def)
qed

lemma reverse_neighbors_subset:
  "reverse_neighbors d i ks acc = Inr r \<Longrightarrow> set r \<subseteq> set acc \<union> set ks"
proof (induction ks arbitrary: acc)
  case Nil
  then show ?case by simp
next
  case (Cons k ks)
  then show ?case
    by (cases "getitem d k") (force split: if_splits)+
qed

lemma get_neighbors_ids:
  assumes "get_neighbors g v = Inr ns"
  shows "set ns \<subseteq> ids g"
proof (cases "is_directed g")
  case True
  with assms have "map_of (vertex_dict g) v = Some ns"
    by (simp add: get_neighbors_def getitem_def split: option.splits)
  then show ?thesis by (rule stored_in_ids)
next
  case False
  with assms obtain r adj where
    r: "reverse_neighbors (vertex_dict g) v (map fst (vertex_dict g)) [] = Inr r" and
    a: "getitem (vertex_dict g) v = Inr adj" and n: "ns = r @ adj"
    by (auto simp: get_neighbors_def split: sum.splits)
  from a have "map_of (vertex_dict g) v = Some adj"
    by (simp add: getitem_def split: option.splits)
  then have "set adj \<subseteq> ids g" by (rule stored_in_ids)
  moreover from reverse_neighbors_subset [OF r] have "set r \<subseteq> ids g"
    using key_in_ids by auto
  ultimately show ?thesis using n by simp
qed

lemma card_unseen_insert:
  assumes "finite U" "n \<in> U" "n \<notin> S"
  shows "2 * card (U - insert n S) + 2 \<le> 2 * card (U - S)"
proof -
  have "U - insert n S = (U - S) - {n}" by auto
  moreover have "n \<in> U - S" using assms by simp
  moreover have "finite (U - S)" using assms by simp
  ultimately have "card (U - insert n S) < card (U - S)"
    by (metis card_Diff1_less)
  then show ?thesis by simp
qed

lemma visit_neighbors_measure:
  assumes "finite U" "set ns \<subseteq> U" "visit_neighbors ns seen q = (seen', q')"
  shows "2 * card (U - seen') + length q' \<le> 2 * card (U - seen) + length q"
  using assms
proof (induction ns arbitrary: seen q)
  case Nil
  then show ?case by simp
next
  case (Cons n ns)
  show ?case
  proof (cases "n \<in> seen")
    case True
    with Cons show ?thesis by simp
  next
    case False
    with Cons.prems have v: "visit_neighbors ns (insert n seen) (q @ [n]) = (seen', q')"
      by simp
    from Cons.prems have "set ns \<subseteq> U" "n \<in> U" by simp_all
    from Cons.IH [OF Cons.prems(1) this(1) v]
      card_unseen_insert [OF Cons.prems(1) \<open>n \<in> U\<close> False]
    show ?thesis by simp
  qed
qed

function bfs_loop :: "Graph \<Rightarrow> vid set \<Rightarrow> vid list \<Rightarrow> vid list \<Rightarrow> vid list \<times> error option" where
  "bfs_loop g seen [] out = (out, None)"
| "bfs_loop g seen (current_vertex_id # queue) out =
     (case get_neighbors g current_vertex_id of
        Inl e \<Rightarrow> (out @ [current_vertex_id], Some e)
      | Inr neighbors \<Rightarrow>
          (case visit_neighbors neighbors seen queue of
             (seen', queue') \<Rightarrow> bfs_loop g seen' queue' (out @ [current_vertex_id])))"
  by pat_completeness auto
termination
proof (relation "measure (\<lambda>(g, seen, queue, out). 2 * card (ids g - seen) + length queue)", goal_cases)
  case 1
  show ?case by simp
next
  case (2 g seen cur queue out ns seen' queue')
  from 2(1) have "set ns \<subseteq> ids g" by (rule get_neighbors_ids)
  from visit_neighbors_measure [OF finite_ids this] 2(2) [symmetric]
  have "2 * card (ids g - seen') + length queue' \<le> 2 * card (ids g - seen) + length queue"
    by simp
  then show ?case by simp
qed

definition bfs_traversal :: "Graph \<Rightarrow> vid \<Rightarrow> vid list \<times> error option" where
  "bfs_traversal g start_id =
     (if start_id \<notin> set (map fst (vertex_dict g)) then ([], Some KeyError)
      else bfs_loop g {start_id} [start_id] [])"

subsection \<open>The graph as a relation\<close>

text \<open>
  The stored arcs, and the edge relation the traversals follow: the stored arcs in a
  directed graph, the stored arcs in both directions in an undirected one.
\<close>

definition arcs :: "Graph \<Rightarrow> (vid \<times> vid) set" where
  "arcs g = {(u, v). v \<in> set (stored g u)}"

definition edge_rel :: "Graph \<Rightarrow> (vid \<times> vid) set" where
  "edge_rel g = (if is_directed g then arcs g else arcs g \<union> (arcs g)\<inverse>)"

text \<open>A graph is closed when every id in a stored adjacency list is a key of the dictionary.\<close>

definition closed :: "Graph \<Rightarrow> bool" where
  "closed g = (ids g \<subseteq> set (get_vertices g))"

lemma stored_nonempty_key: "n \<in> set (stored g v) \<Longrightarrow> v \<in> set (get_vertices g)"
  by (cases "map_of (vertex_dict g) v")
     (auto simp: stored_def get_vertices_def dest: map_of_SomeD intro: rev_image_eqI)

lemma get_neighbors_edges:
  assumes "k \<in> set (get_vertices g)"
  shows "\<exists>ns. get_neighbors g k = Inr ns \<and> set ns = edge_rel g `` {k}"
proof -
  from assms have "k \<in> set (map fst (vertex_dict g))" by (simp add: get_vertices_def)
  from getitem_key [OF this] obtain adj where adj: "map_of (vertex_dict g) k = Some adj"
    by auto
  then have st: "stored g k = adj" by (simp add: stored_def)
  show ?thesis
  proof (cases "is_directed g")
    case True
    with get_neighbors_spec [OF adj] st show ?thesis
      by (auto simp: edge_rel_def arcs_def)
  next
    case False
    have "set (filter (\<lambda>v. k \<in> set (stored g v)) (get_vertices g)) = (arcs g)\<inverse> `` {k}"
      using stored_nonempty_key by (auto simp: arcs_def)
    with False get_neighbors_spec [OF adj] st show ?thesis
      by (auto simp: edge_rel_def arcs_def)
  qed
qed

lemma visit_neighbors_result:
  "visit_neighbors ns seen q = (seen', q') \<Longrightarrow>
   \<exists>new. q' = q @ new \<and> seen' = seen \<union> set new \<and> distinct new \<and> set new = set ns - seen"
proof (induction ns arbitrary: seen q)
  case Nil
  then show ?case by simp
next
  case (Cons n ns)
  show ?case
  proof (cases "n \<in> seen")
    case True
    with Cons.prems have "visit_neighbors ns seen q = (seen', q')" by simp
    from Cons.IH [OF this] True show ?thesis by auto
  next
    case False
    with Cons.prems have "visit_neighbors ns (insert n seen) (q @ [n]) = (seen', q')" by simp
    from Cons.IH [OF this] obtain new where
      new: "q' = (q @ [n]) @ new" "seen' = insert n seen \<union> set new" "distinct new"
           "set new = set ns - insert n seen"
      by blast
    have "q' = q @ (n # new)" using new(1) by simp
    moreover have "seen' = seen \<union> set (n # new)" using new(2) by simp
    moreover have "distinct (n # new)" using new(3,4) by auto
    moreover have "set (n # new) = set (n # ns) - seen" using new(4) False by auto
    ultimately show ?thesis by blast
  qed
qed


lemma bfs_loop_inv:
  "closed g \<Longrightarrow> edge_rel g `` R \<subseteq> R \<Longrightarrow>
   set queue \<subseteq> set (get_vertices g) \<Longrightarrow> seen = set (out @ queue) \<Longrightarrow>
   distinct (out @ queue) \<Longrightarrow> (\<forall>u \<in> set out. edge_rel g `` {u} \<subseteq> seen) \<Longrightarrow> seen \<subseteq> R \<Longrightarrow>
   \<exists>res rest. bfs_loop g seen queue out = (res, None) \<and> distinct res \<and>
      res = out @ queue @ rest \<and> (\<forall>u \<in> set res. edge_rel g `` {u} \<subseteq> set res) \<and> set res \<subseteq> R"
proof (induction g seen queue out rule: bfs_loop.induct)
  case (1 g seen out)
  then show ?case by simp
next
  case (2 g seen cur queue out)
  note cl = "2.prems"(1) and RR = "2.prems"(2) and pq = "2.prems"(3) and ps = "2.prems"(4)
    and pd = "2.prems"(5) and pe = "2.prems"(6) and pr = "2.prems"(7)
  from pq have "cur \<in> set (get_vertices g)" by simp
  from get_neighbors_edges [OF this] obtain ns where
    ns: "get_neighbors g cur = Inr ns" "set ns = edge_rel g `` {cur}"
    by auto
  obtain seen' queue' where v: "visit_neighbors ns seen queue = (seen', queue')"
    by (cases "visit_neighbors ns seen queue") auto
  from visit_neighbors_result [OF v] obtain new where
    new: "queue' = queue @ new" "seen' = seen \<union> set new" "distinct new"
         "set new = set ns - seen"
    by blast
  have nsub: "set ns \<subseteq> set (get_vertices g)"
    using get_neighbors_ids [OF ns(1)] cl by (auto simp: closed_def)
  have curR: "cur \<in> R" using ps pr by auto
  have p1: "set queue' \<subseteq> set (get_vertices g)"
    using pq new(1,4) nsub by auto
  have p2: "seen' = set ((out @ [cur]) @ queue')"
    using ps new(1,2) by auto
  have p3: "distinct ((out @ [cur]) @ queue')"
    using ps pd new(1,3,4) by auto
  have p4: "\<forall>u \<in> set (out @ [cur]). edge_rel g `` {u} \<subseteq> seen'"
    using pe new(2,4) ns(2) by auto
  have p5: "seen' \<subseteq> R"
    using pr new(2,4) ns(2) curR RR by auto
  from "2.IH" [OF ns(1) v [symmetric] cl RR p1 p2 p3 p4 p5]
  obtain res rest where
    r: "bfs_loop g seen' queue' (out @ [cur]) = (res, None)" "distinct res"
       "res = (out @ [cur]) @ queue' @ rest" "\<forall>u \<in> set res. edge_rel g `` {u} \<subseteq> set res"
       "set res \<subseteq> R"
    by blast
  have "bfs_loop g seen (cur # queue) out = (res, None)"
    using ns(1) v r(1) by simp
  moreover have "res = out @ (cur # queue) @ (new @ rest)"
    using r(3) new(1) by simp
  ultimately show ?case using r(2,4,5) by blast
qed

text \<open>
  C5 (as amended).  In a closed graph, for a start vertex that is a key, \<open>bfs_traversal\<close>
  raises nothing, and the sequence it prints starts with the start vertex and contains
  every vertex reachable from it along the edge relation exactly once, and nothing else.
\<close>

theorem bfs_traversal_visits_reachable_once:
  assumes "closed g" and "v \<in> set (get_vertices g)"
  shows "\<exists>out. bfs_traversal g v = (out, None) \<and> distinct out \<and>
           set out = (edge_rel g)\<^sup>* `` {v} \<and> out \<noteq> [] \<and> hd out = v"
proof -
  let ?E = "edge_rel g" and ?R = "(edge_rel g)\<^sup>* `` {v}"
  have cl: "?E `` ?R \<subseteq> ?R" by (auto intro: rtrancl_into_rtrancl)
  have "\<exists>res rest. bfs_loop g {v} [v] [] = (res, None) \<and> distinct res \<and>
            res = [] @ [v] @ rest \<and> (\<forall>u \<in> set res. ?E `` {u} \<subseteq> set res) \<and> set res \<subseteq> ?R"
    using assms(2) by (intro bfs_loop_inv [OF assms(1) cl]) auto
  then obtain res rest where
    r: "bfs_loop g {v} [v] [] = (res, None)" "distinct res" "res = v # rest"
       "\<forall>u \<in> set res. ?E `` {u} \<subseteq> set res" "set res \<subseteq> ?R"
    by auto
  have "x \<in> set res" if "(v, x) \<in> ?E\<^sup>*" for x
    using that
  proof (induction rule: rtrancl_induct)
    case base
    show ?case using r(3) by simp
  next
    case (step y z)
    with r(4) show ?case by auto
  qed
  then have "?R \<subseteq> set res" by auto
  with r(5) have "set res = ?R" by auto
  moreover have "bfs_traversal g v = (res, None)"
    using assms(2) r(1) by (simp add: bfs_traversal_def get_vertices_def)
  ultimately show ?thesis using r(2,3) by simp
qed


text \<open>
  The undirected line graph A - B - C - D, built by \<open>add_vertex\<close> for A, B, C, D and
  \<open>add_edge\<close> for (A, B), (B, C), (C, D).
\<close>

definition g_line :: Graph where
  "g_line = \<lparr>vertex_dict = [(''A'', [''B'']), (''B'', [''C'']), (''C'', [''D'']), (''D'', [])],
             is_directed = False\<rparr>"

lemma closed_g_line: "closed g_line"
  by (simp add: closed_def ids_def g_line_def get_vertices_def)

theorem bfs_traversal_visits_reachable_once_witness:
  "closed g_line \<and> ''A'' \<in> set (get_vertices g_line) \<and>
   (\<exists>out. bfs_traversal g_line ''A'' = (out, None) \<and> distinct out \<and>
      set out = (edge_rel g_line)\<^sup>* `` {''A''} \<and> out \<noteq> [] \<and> hd out = ''A'')"
proof -
  have h: "''A'' \<in> set (get_vertices g_line)"
    by (simp add: g_line_def get_vertices_def)
  from bfs_traversal_visits_reachable_once [OF closed_g_line h] closed_g_line h
  show ?thesis by simp
qed

text \<open>
  The directed graph with vertices A, C, D and edges (A, B), (A, C), (C, D): the edge
  (A, B) ends at an id that was never added as a vertex, which \<open>add_edge\<close> accepts.
  The traversal prints A and B and then raises \<open>KeyError\<close> at the lookup of B's adjacency
  list; C, a stored neighbour of A, is never printed.
\<close>

definition g_dangling :: Graph where
  "g_dangling = \<lparr>vertex_dict = [(''A'', [''B'', ''C'']), (''C'', [''D'']), (''D'', [])],
                 is_directed = True\<rparr>"

lemma g_dangling_built:
  "add_edge (add_vertex (add_vertex (add_vertex (Graph_init True) ''A'') ''C'') ''D'') ''A'' ''B''
     = Inr g1 \<and> add_edge g1 ''A'' ''C'' = Inr g2 \<and> add_edge g2 ''C'' ''D'' = Inr g3
   \<longleftrightarrow> g1 = \<lparr>vertex_dict = [(''A'', [''B'']), (''C'', []), (''D'', [])], is_directed = True\<rparr>
     \<and> g2 = \<lparr>vertex_dict = [(''A'', [''B'', ''C'']), (''C'', []), (''D'', [])], is_directed = True\<rparr>
     \<and> g3 = g_dangling"
  by (auto simp: add_edge_def add_vertex_def Graph_init_def getitem_def g_dangling_def)

theorem bfs_traversal_dangling_counterexample:
  "''A'' \<in> set (get_vertices g_dangling) \<and>
   bfs_traversal g_dangling ''A'' = ([''A'', ''B''], Some KeyError) \<and>
   (''A'', ''C'') \<in> edge_rel g_dangling \<and>
   ''C'' \<notin> set (fst (bfs_traversal g_dangling ''A''))"
proof -
  have "bfs_traversal g_dangling ''A'' = ([''A'', ''B''], Some KeyError)"
    by (simp add: bfs_traversal_def g_dangling_def get_neighbors_def getitem_def)
  moreover have "(''A'', ''C'') \<in> edge_rel g_dangling"
    by (simp add: edge_rel_def arcs_def stored_def g_dangling_def)
  moreover have "''A'' \<in> set (get_vertices g_dangling)"
    by (simp add: get_vertices_def g_dangling_def)
  ultimately show ?thesis by simp
qed

subsection \<open>Two-colouring\<close>

text \<open>
  A loop body either leaves the enclosing function with a value (\<open>return\<close> inside the
  loop) or hands the updated variables to the next iteration.
\<close>

datatype ('r, 's) flow = Returned 'r | Next 's

text \<open>
  The \<open>for\<close> loop of \<open>is_bipartite\<close> over the neighbours of \<open>vertex\<close>; \<open>vertex_colors\<close>
  is the dictionary from vertex ids to colours.
\<close>

fun color_neighbors ::
  "vid list \<Rightarrow> vid \<Rightarrow> (vid \<rightharpoonup> bool) \<Rightarrow> vid list \<Rightarrow>
     error + (bool, (vid \<rightharpoonup> bool) \<times> vid list) flow" where
  "color_neighbors [] vertex vertex_colors queue = Inr (Next (vertex_colors, queue))"
| "color_neighbors (neighbor # rest) vertex vertex_colors queue =
     (case vertex_colors neighbor of
        None \<Rightarrow>
          (case vertex_colors vertex of
             None \<Rightarrow> Inl KeyError
           | Some c \<Rightarrow>
               color_neighbors rest vertex (vertex_colors(neighbor \<mapsto> \<not> c)) (queue @ [neighbor]))
      | Some cn \<Rightarrow>
          (case vertex_colors vertex of
             None \<Rightarrow> Inl KeyError
           | Some c \<Rightarrow>
               if cn = c then Inr (Returned False)
               else color_neighbors rest vertex vertex_colors queue))"

lemma color_neighbors_measure:
  assumes "finite U" "set ns \<subseteq> U"
    "color_neighbors ns vertex colors q = Inr (Next (colors', q'))"
  shows "2 * card (U - dom colors') + length q' \<le> 2 * card (U - dom colors) + length q"
  using assms
proof (induction ns arbitrary: colors q)
  case Nil
  then show ?case by simp
next
  case (Cons n ns)
  from Cons.prems have nU: "n \<in> U" and sub: "set ns \<subseteq> U" by simp_all
  from Cons.prems(3) obtain c where c: "colors vertex = Some c"
    by (cases "colors vertex") (auto split: option.splits)
  show ?case
  proof (cases "colors n")
    case None
    with Cons.prems(3) c
    have "color_neighbors ns vertex (colors(n \<mapsto> \<not> c)) (q @ [n]) = Inr (Next (colors', q'))"
      by simp
    from Cons.IH [OF Cons.prems(1) sub this]
    have "2 * card (U - dom (colors(n \<mapsto> \<not> c))) + length (q @ [n])
            \<ge> 2 * card (U - dom colors') + length q'" .
    moreover have "n \<notin> dom colors" using None by auto
    from card_unseen_insert [OF Cons.prems(1) nU this]
    have "2 * card (U - dom (colors(n \<mapsto> \<not> c))) + 2 \<le> 2 * card (U - dom colors)"
      by simp
    ultimately show ?thesis by simp
  next
    case (Some cn)
    with Cons.prems(3) c
    have "color_neighbors ns vertex colors q = Inr (Next (colors', q'))"
      by (simp split: if_splits)
    from Cons.IH [OF Cons.prems(1) sub this] show ?thesis .
  qed
qed

function bipartite_loop :: "Graph \<Rightarrow> (vid \<rightharpoonup> bool) \<Rightarrow> vid list \<Rightarrow> error + bool" where
  "bipartite_loop g vertex_colors [] = Inr True"
| "bipartite_loop g vertex_colors (vertex # queue) =
     (case get_neighbors g vertex of
        Inl e \<Rightarrow> Inl e
      | Inr neighbors \<Rightarrow>
          (case color_neighbors neighbors vertex vertex_colors queue of
             Inl e \<Rightarrow> Inl e
           | Inr (Returned b) \<Rightarrow> Inr b
           | Inr (Next (vertex_colors', queue')) \<Rightarrow> bipartite_loop g vertex_colors' queue'))"
  by pat_completeness auto
termination
proof (relation "measure (\<lambda>(g, colors, queue). 2 * card (ids g - dom colors) + length queue)",
    goal_cases)
  case 1
  show ?case by simp
next
  case (2 g colors vertex queue ns fl st colors' queue')
  from 2(1) have "set ns \<subseteq> ids g" by (rule get_neighbors_ids)
  from color_neighbors_measure [OF finite_ids this] 2(2,3,4)
  have "2 * card (ids g - dom colors') + length queue' \<le> 2 * card (ids g - dom colors) + length queue"
    by simp
  then show ?case by simp
qed

definition is_bipartite :: "Graph \<Rightarrow> error + bool" where
  "is_bipartite g =
     (case map fst (vertex_dict g) of
        [] \<Rightarrow> Inl IndexError
      | start_id # _ \<Rightarrow> bipartite_loop g [start_id \<mapsto> True] [start_id])"

text \<open>
  C10.  On a graph with no vertices \<open>is_bipartite\<close> returns no boolean: taking element 0
  of the empty list of keys raises \<open>IndexError\<close>, whether the graph is directed or not.
\<close>

theorem is_bipartite_empty_graph: "is_bipartite (Graph_init directed) = Inl IndexError"
  by (simp add: is_bipartite_def Graph_init_def)

lemma is_bipartite_cycles:
  "is_bipartite \<lparr>vertex_dict = [(''A'', [''B'']), (''B'', [''C'']), (''C'', [''D'']), (''D'', [''A''])],
                 is_directed = False\<rparr> = Inr True \<and>
   is_bipartite \<lparr>vertex_dict = [(''A'', [''B'']), (''B'', [''C'']), (''C'', [''A''])],
                 is_directed = False\<rparr> = Inr False"
  by (simp add: is_bipartite_def get_neighbors_def getitem_def)

subsection \<open>Shortest path by breadth-first search\<close>

text \<open>
  The \<open>for\<close> loop of \<open>find_shortest_path\<close> over the neighbours of \<open>vertex\<close>: a neighbour
  without an entry in \<open>path_dict\<close> gets a copy of the path of \<open>vertex\<close>, extended by
  itself, and joins the queue.
\<close>

fun extend_paths ::
  "vid list \<Rightarrow> vid \<Rightarrow> (vid \<rightharpoonup> vid list) \<Rightarrow> vid list \<Rightarrow>
     error + (vid \<rightharpoonup> vid list) \<times> vid list" where
  "extend_paths [] vertex path_dict queue = Inr (path_dict, queue)"
| "extend_paths (neighbor_id # rest) vertex path_dict queue =
     (case path_dict neighbor_id of
        None \<Rightarrow>
          (case path_dict vertex of
             None \<Rightarrow> Inl KeyError
           | Some p \<Rightarrow>
               extend_paths rest vertex (path_dict(neighbor_id \<mapsto> p @ [neighbor_id]))
                 (queue @ [neighbor_id]))
      | Some _ \<Rightarrow> extend_paths rest vertex path_dict queue)"

lemma extend_paths_measure:
  assumes "finite U" "set ns \<subseteq> U" "extend_paths ns vertex pd q = Inr (pd', q')"
  shows "2 * card (U - dom pd') + length q' \<le> 2 * card (U - dom pd) + length q"
  using assms
proof (induction ns arbitrary: pd q)
  case Nil
  then show ?case by simp
next
  case (Cons n ns)
  from Cons.prems have nU: "n \<in> U" and sub: "set ns \<subseteq> U" by simp_all
  show ?case
  proof (cases "pd n")
    case None
    with Cons.prems(3) obtain p where p: "pd vertex = Some p"
      by (cases "pd vertex") auto
    with None Cons.prems(3)
    have "extend_paths ns vertex (pd(n \<mapsto> p @ [n])) (q @ [n]) = Inr (pd', q')"
      by simp
    from Cons.IH [OF Cons.prems(1) sub this]
    have "2 * card (U - dom (pd(n \<mapsto> p @ [n]))) + length (q @ [n])
            \<ge> 2 * card (U - dom pd') + length q'" .
    moreover have "n \<notin> dom pd" using None by auto
    from card_unseen_insert [OF Cons.prems(1) nU this]
    have "2 * card (U - dom (pd(n \<mapsto> p @ [n]))) + 2 \<le> 2 * card (U - dom pd)"
      by simp
    ultimately show ?thesis by simp
  next
    case (Some a)
    with Cons.prems(3) have "extend_paths ns vertex pd q = Inr (pd', q')" by simp
    from Cons.IH [OF Cons.prems(1) sub this] show ?thesis .
  qed
qed

text \<open>The \<open>while\<close> loop; it is left by \<open>break\<close> when the dequeued vertex is the target.\<close>

function shortest_path_loop ::
  "Graph \<Rightarrow> vid \<Rightarrow> (vid \<rightharpoonup> vid list) \<Rightarrow> vid list \<Rightarrow> error + (vid \<rightharpoonup> vid list)" where
  "shortest_path_loop g target_id path_dict [] = Inr path_dict"
| "shortest_path_loop g target_id path_dict (vertex # queue) =
     (if vertex = target_id then Inr path_dict
      else
        (case get_neighbors g vertex of
           Inl e \<Rightarrow> Inl e
         | Inr neighbors \<Rightarrow>
             (case extend_paths neighbors vertex path_dict queue of
                Inl e \<Rightarrow> Inl e
              | Inr (path_dict', queue') \<Rightarrow> shortest_path_loop g target_id path_dict' queue')))"
  by pat_completeness auto
termination
proof (relation "measure (\<lambda>(g, t, pd, queue). 2 * card (ids g - dom pd) + length queue)",
    goal_cases)
  case 1
  show ?case by simp
next
  case (2 g t pd vertex queue ns st pd' queue')
  from 2(2) have "set ns \<subseteq> ids g" by (rule get_neighbors_ids)
  from extend_paths_measure [OF finite_ids this] 2(3,4)
  have "2 * card (ids g - dom pd') + length queue' \<le> 2 * card (ids g - dom pd) + length queue"
    by simp
  then show ?case by simp
qed

definition find_shortest_path :: "Graph \<Rightarrow> vid \<Rightarrow> vid \<Rightarrow> error + vid list" where
  "find_shortest_path g start_id target_id =
     (if start_id \<notin> set (map fst (vertex_dict g)) then Inl KeyError
      else
        (case shortest_path_loop g target_id [start_id \<mapsto> [start_id]] [start_id] of
           Inl e \<Rightarrow> Inl e
         | Inr path_dict \<Rightarrow>
             (case path_dict target_id of None \<Rightarrow> Inl KeyError | Some p \<Rightarrow> Inr p)))"

lemma find_shortest_path_line:
  "find_shortest_path g_line ''A'' ''D'' = Inr [''A'', ''B'', ''C'', ''D'']"
  by (simp add: find_shortest_path_def g_line_def get_neighbors_def getitem_def)

lemma extend_paths_result:
  "pd vertex = Some px \<Longrightarrow>
   \<exists>pd' new. extend_paths ns vertex pd q = Inr (pd', q @ new) \<and> distinct new \<and>
      set new = set ns - dom pd \<and> dom pd' = dom pd \<union> set new \<and>
      (\<forall>u \<in> dom pd. pd' u = pd u) \<and> (\<forall>w \<in> set new. pd' w = Some (px @ [w]))"
proof (induction ns arbitrary: pd q)
  case Nil
  show ?case by (rule exI [of _ pd], rule exI [of _ "[]"]) simp
next
  case (Cons n ns)
  show ?case
  proof (cases "pd n")
    case None
    then have nv: "n \<noteq> vertex" using Cons.prems by auto
    let ?pd = "pd(n \<mapsto> px @ [n])"
    have "?pd vertex = Some px" using Cons.prems nv by simp
    from Cons.IH [of ?pd "q @ [n]", OF this] obtain pd' new where
      r: "extend_paths ns vertex ?pd (q @ [n]) = Inr (pd', (q @ [n]) @ new)" "distinct new"
         "set new = set ns - dom ?pd" "dom pd' = dom ?pd \<union> set new"
         "\<forall>u \<in> dom ?pd. pd' u = ?pd u" "\<forall>w \<in> set new. pd' w = Some (px @ [w])"
      by blast
    have e: "extend_paths (n # ns) vertex pd q = Inr (pd', q @ (n # new))"
      using None Cons.prems r(1) by simp
    have d: "distinct (n # new)" using r(2,3) by auto
    have s: "set (n # new) = set (n # ns) - dom pd" using r(3) None by auto
    have m: "dom pd' = dom pd \<union> set (n # new)" using r(4) by auto
    have o: "\<forall>u \<in> dom pd. pd' u = pd u"
    proof
      fix u assume u: "u \<in> dom pd"
      then have "u \<noteq> n" using None by auto
      with u r(5) show "pd' u = pd u" by auto
    qed
    have w: "\<forall>w \<in> set (n # new). pd' w = Some (px @ [w])"
      using r(5,6) by auto
    from e d s m o w show ?thesis by blast
  next
    case (Some a)
    from Cons.IH [of pd q, OF Cons.prems] obtain pd' new where
      r: "extend_paths ns vertex pd q = Inr (pd', q @ new)" "distinct new"
         "set new = set ns - dom pd" "dom pd' = dom pd \<union> set new"
         "\<forall>u \<in> dom pd. pd' u = pd u" "\<forall>w \<in> set new. pd' w = Some (px @ [w])"
      by blast
    have "extend_paths (n # ns) vertex pd q = Inr (pd', q @ new)"
      using Some r(1) by simp
    moreover have "set new = set (n # ns) - dom pd" using r(3) Some by auto
    ultimately show ?thesis using r(2,4,5,6) by blast
  qed
qed


text \<open>
  A recorded path for \<open>u\<close> is good when it is a walk from the start \<open>s\<close> to \<open>u\<close> along
  the edge relation and no walk from \<open>s\<close> to \<open>u\<close> has fewer edges.
\<close>

definition good_path :: "(vid \<times> vid) set \<Rightarrow> vid \<Rightarrow> vid \<Rightarrow> vid list \<Rightarrow> bool" where
  "good_path E s u p \<longleftrightarrow>
     p \<noteq> [] \<and> hd p = s \<and> last p = u \<and> successively (\<lambda>a b. (a, b) \<in> E) p \<and>
     (\<forall>n. (s, u) \<in> E ^^ n \<longrightarrow> length p \<le> Suc n)"

definition lev :: "(vid \<rightharpoonup> vid list) \<Rightarrow> vid \<Rightarrow> nat" where
  "lev pd u = length (the (pd u)) - 1"

definition sp_inv ::
  "(vid \<times> vid) set \<Rightarrow> vid set \<Rightarrow> vid \<Rightarrow> (vid \<rightharpoonup> vid list) \<Rightarrow> vid list \<Rightarrow> bool" where
  "sp_inv E K s pd queue \<longleftrightarrow>
     pd s = Some [s] \<and>
     (\<forall>u p. pd u = Some p \<longrightarrow> good_path E s u p) \<and>
     distinct queue \<and> set queue \<subseteq> dom pd \<and> set queue \<subseteq> K \<and>
     sorted_wrt (\<lambda>a b. lev pd a \<le> lev pd b) queue \<and>
     (\<forall>q \<in> set queue. lev pd q \<le> Suc (lev pd (hd queue))) \<and>
     (\<forall>u \<in> dom pd - set queue. E `` {u} \<subseteq> dom pd \<and> (\<forall>q \<in> set queue. lev pd u \<le> lev pd q))"

lemma sp_inv_closer:
  assumes inv: "sp_inv E K s pd (x # rest)"
  shows "(s, v) \<in> E ^^ n \<Longrightarrow> n \<le> lev pd x \<Longrightarrow> v \<in> dom pd"
proof (induction n arbitrary: v)
  case 0
  then have "v = s" by simp
  with inv show ?case by (auto simp: sp_inv_def)
next
  case (Suc n)
  from Suc.prems(1) obtain u where u: "(s, u) \<in> E ^^ n" "(u, v) \<in> E" by auto
  from Suc.IH [OF u(1)] Suc.prems(2) have "u \<in> dom pd" by simp
  then obtain p where p: "pd u = Some p" by auto
  with inv have "good_path E s u p" by (simp add: sp_inv_def)
  with u(1) have "length p \<le> Suc n" by (simp add: good_path_def)
  with p have lu: "lev pd u \<le> n" by (simp add: lev_def)
  have "u \<notin> set (x # rest)"
  proof
    assume "u \<in> set (x # rest)"
    then have "lev pd x \<le> lev pd u"
      using inv by (auto simp: sp_inv_def)
    with lu Suc.prems(2) show False by simp
  qed
  with \<open>u \<in> dom pd\<close> inv have "E `` {u} \<subseteq> dom pd"
    by (simp add: sp_inv_def)
  with u(2) show ?case by auto
qed


lemma sp_inv_step:
  assumes inv: "sp_inv E K s pd (x # rest)"
    and ns: "set ns = E `` {x}" "set ns \<subseteq> K"
    and ext: "extend_paths ns x pd rest = Inr (pd', queue')"
  shows "sp_inv E K s pd' queue'"
proof -
  from inv have xd: "x \<in> dom pd" by (simp add: sp_inv_def)
  then obtain px where px: "pd x = Some px" by auto
  from inv px have gx: "good_path E s x px" by (simp add: sp_inv_def)
  from extend_paths_result [of pd x px ns rest, OF px] ext obtain new where
    q': "queue' = rest @ new" and dn: "distinct new" and sn: "set new = set ns - dom pd"
    and dom': "dom pd' = dom pd \<union> set new" and old: "\<forall>u \<in> dom pd. pd' u = pd u"
    and nw: "\<forall>w \<in> set new. pd' w = Some (px @ [w])"
    by auto
  have lev_old: "lev pd' u = lev pd u" if "u \<in> dom pd" for u
    using that old by (simp add: lev_def)
  have pxne: "px \<noteq> []" using gx by (simp add: good_path_def)
  have lev_new: "lev pd' w = Suc (lev pd x)" if "w \<in> set new" for w
    using that nw px pxne by (cases px) (auto simp: lev_def)
  have rest_dom: "set rest \<subseteq> dom pd" using inv by (simp add: sp_inv_def)
  have rest_ge: "lev pd x \<le> lev pd q" if "q \<in> set rest" for q
    using that inv by (auto simp: sp_inv_def)
  have rest_le: "lev pd q \<le> Suc (lev pd x)" if "q \<in> set rest" for q
    using that inv by (auto simp: sp_inv_def)
  have c1: "pd' s = Some [s]"
  proof -
    from inv have "pd s = Some [s]" by (simp add: sp_inv_def)
    moreover then have "s \<in> dom pd" by auto
    ultimately show ?thesis using old by auto
  qed
  have c2: "\<forall>u p. pd' u = Some p \<longrightarrow> good_path E s u p"
  proof (intro allI impI)
    fix u p assume up: "pd' u = Some p"
    show "good_path E s u p"
    proof (cases "u \<in> dom pd")
      case True
      with old up have "pd u = Some p" by auto
      with inv show ?thesis by (simp add: sp_inv_def)
    next
      case False
      with up dom' have un: "u \<in> set new" by auto
      with nw up have p: "p = px @ [u]" by auto
      from un sn ns(1) have xu: "(x, u) \<in> E" by auto
      have "length p \<le> Suc n" if "(s, u) \<in> E ^^ n" for n
      proof (rule ccontr)
        assume "\<not> length p \<le> Suc n"
        with p pxne have "n \<le> lev pd x" using px by (simp add: lev_def)
        from sp_inv_closer [OF inv that this] False show False by simp
      qed
      with gx p xu pxne show ?thesis
        by (auto simp: good_path_def successively_append_iff)
    qed
  qed
  have c3: "distinct queue'"
    using inv q' dn sn rest_dom by (auto simp: sp_inv_def)
  have c4: "set queue' \<subseteq> dom pd'"
    using q' dom' rest_dom by auto
  have c5: "set queue' \<subseteq> K"
    using inv q' sn ns(2) by (auto simp: sp_inv_def)
  have lev_rest: "lev pd' q = lev pd q" if "q \<in> set rest" for q
    using that rest_dom lev_old by auto
  have sr: "sorted_wrt (\<lambda>a b. lev pd' a \<le> lev pd' b) rest"
  proof -
    from inv have "sorted_wrt (\<lambda>a b. lev pd a \<le> lev pd b) rest" by (simp add: sp_inv_def)
    then show ?thesis
      by (rule sorted_wrt_mono_rel [rotated]) (simp add: lev_rest)
  qed
  have c6: "sorted_wrt (\<lambda>a b. lev pd' a \<le> lev pd' b) queue'"
    unfolding q' sorted_wrt_append
  proof (intro conjI ballI)
    show "sorted_wrt (\<lambda>a b. lev pd' a \<le> lev pd' b) rest" by (rule sr)
    show "sorted_wrt (\<lambda>a b. lev pd' a \<le> lev pd' b) new"
      by (rule sorted_wrt_mono_rel [of _ "\<lambda>a b. True"]) (auto simp: lev_new)
    fix a b assume "a \<in> set rest" "b \<in> set new"
    then show "lev pd' a \<le> lev pd' b"
      using rest_le [of a] lev_rest [of a] lev_new [of b] by simp
  qed
  have c7: "\<forall>q \<in> set queue'. lev pd' q \<le> Suc (lev pd' (hd queue'))"
  proof
    fix q assume q: "q \<in> set queue'"
    then have "queue' \<noteq> []" by auto
    then have "hd queue' \<in> set queue'" by simp
    then have "hd queue' \<in> set rest \<or> hd queue' \<in> set new"
      unfolding q' by simp
    then have "lev pd x \<le> lev pd' (hd queue')"
      using rest_ge [of "hd queue'"] lev_rest [of "hd queue'"] lev_new [of "hd queue'"] by auto
    moreover have "q \<in> set rest \<or> q \<in> set new"
      using q unfolding q' by simp
    then have "lev pd' q \<le> Suc (lev pd x)"
      using rest_le [of q] lev_rest [of q] lev_new [of q] by auto
    ultimately show "lev pd' q \<le> Suc (lev pd' (hd queue'))" by simp
  qed
  have xr: "x \<notin> set rest" using inv by (simp add: sp_inv_def)
  have c8: "\<forall>u \<in> dom pd' - set queue'.
              E `` {u} \<subseteq> dom pd' \<and> (\<forall>q \<in> set queue'. lev pd' u \<le> lev pd' q)"
  proof
    fix u assume u: "u \<in> dom pd' - set queue'"
    with dom' q' have ud: "u \<in> dom pd" "u \<notin> set rest" "u \<notin> set new" by auto
    have ux: "lev pd u \<le> lev pd x"
    proof (cases "u = x")
      case True
      then show ?thesis by simp
    next
      case False
      with ud have "u \<in> dom pd - set (x # rest)" by simp
      with inv show ?thesis by (auto simp: sp_inv_def)
    qed
    have "E `` {u} \<subseteq> dom pd'"
    proof (cases "u = x")
      case True
      with ns(1) sn dom' show ?thesis by auto
    next
      case False
      with ud have "u \<in> dom pd - set (x # rest)" by simp
      with inv have "E `` {u} \<subseteq> dom pd" by (simp add: sp_inv_def)
      with dom' show ?thesis by auto
    qed
    moreover have "\<forall>q \<in> set queue'. lev pd' u \<le> lev pd' q"
    proof
      fix q assume "q \<in> set queue'"
      then consider "q \<in> set rest" | "q \<in> set new" unfolding q' by auto
      then show "lev pd' u \<le> lev pd' q"
      proof cases
        case 1
        with rest_ge [of q] lev_rest [of q] lev_old [OF ud(1)] ux show ?thesis by simp
      next
        case 2
        with lev_new [of q] lev_old [OF ud(1)] ux show ?thesis by simp
      qed
    qed
    ultimately show "E `` {u} \<subseteq> dom pd' \<and> (\<forall>q \<in> set queue'. lev pd' u \<le> lev pd' q)" ..
  qed
  show ?thesis
    unfolding sp_inv_def using c1 c2 c3 c4 c5 c6 c7 c8 by (intro conjI)
qed

lemma shortest_path_loop_inv:
  "closed g \<Longrightarrow> sp_inv (edge_rel g) (set (get_vertices g)) s pd queue \<Longrightarrow>
   \<exists>pd'. shortest_path_loop g t pd queue = Inr pd' \<and>
      (\<forall>u p. pd' u = Some p \<longrightarrow> good_path (edge_rel g) s u p) \<and>
      ((s, t) \<in> (edge_rel g)\<^sup>* \<longrightarrow> t \<in> dom pd')"
proof (induction g t pd queue rule: shortest_path_loop.induct)
  case (1 g t pd)
  note inv = "1.prems"(2)
  have "v \<in> dom pd" if "(s, v) \<in> (edge_rel g)\<^sup>*" for v
    using that
  proof (induction rule: rtrancl_induct)
    case base
    from inv show ?case by (auto simp: sp_inv_def)
  next
    case (step y z)
    with inv show ?case by (auto simp: sp_inv_def)
  qed
  with inv show ?case by (auto simp: sp_inv_def)
next
  case (2 g t pd vertex queue)
  note cl = "2.prems"(1) and inv = "2.prems"(2)
  show ?case
  proof (cases "vertex = t")
    case True
    with inv show ?thesis by (auto simp: sp_inv_def)
  next
    case False
    from inv have vk: "vertex \<in> set (get_vertices g)" and vd: "vertex \<in> dom pd"
      by (simp_all add: sp_inv_def)
    from get_neighbors_edges [OF vk] obtain ns where
      ns: "get_neighbors g vertex = Inr ns" "set ns = edge_rel g `` {vertex}"
      by auto
    have nsub: "set ns \<subseteq> set (get_vertices g)"
      using get_neighbors_ids [OF ns(1)] cl by (auto simp: closed_def)
    from vd obtain px where px: "pd vertex = Some px" by auto
    from extend_paths_result [of pd vertex px ns queue, OF px] obtain pd1 q1 where
      ext: "extend_paths ns vertex pd queue = Inr (pd1, q1)"
      by auto
    from sp_inv_step [OF inv ns(2) nsub ext]
    have inv1: "sp_inv (edge_rel g) (set (get_vertices g)) s pd1 q1" .
    from "2.IH" [OF False ns(1) ext refl cl inv1]
    obtain pd' where
      r: "shortest_path_loop g t pd1 q1 = Inr pd'"
         "\<forall>u p. pd' u = Some p \<longrightarrow> good_path (edge_rel g) s u p"
         "(s, t) \<in> (edge_rel g)\<^sup>* \<longrightarrow> t \<in> dom pd'"
      by blast
    have "shortest_path_loop g t pd (vertex # queue) = Inr pd'"
      using False ns(1) ext r(1) by simp
    with r(2,3) show ?thesis by blast
  qed
qed

text \<open>The number of edges of a shortest walk from \<open>s\<close> to \<open>t\<close> (the hop distance).\<close>

definition hop_distance :: "Graph \<Rightarrow> vid \<Rightarrow> vid \<Rightarrow> nat" where
  "hop_distance g s t = (LEAST n. (s, t) \<in> edge_rel g ^^ n)"

lemma walk_relpow:
  "p \<noteq> [] \<Longrightarrow> successively (\<lambda>a b. (a, b) \<in> E) p \<Longrightarrow> (hd p, last p) \<in> E ^^ (length p - 1)"
proof (induction p rule: rev_induct)
  case Nil
  then show ?case by simp
next
  case (snoc x xs)
  show ?case
  proof (cases "xs = []")
    case True
    then show ?thesis by simp
  next
    case False
    with snoc.prems have s: "successively (\<lambda>a b. (a, b) \<in> E) xs" and e: "(last xs, x) \<in> E"
      by (simp_all add: successively_append_iff)
    from snoc.IH [OF False s] have "(hd xs, last xs) \<in> E ^^ (length xs - 1)" .
    with e have "(hd xs, x) \<in> E ^^ Suc (length xs - 1)" by auto
    with False show ?thesis by (cases xs) auto
  qed
qed

text \<open>
  C6 (as amended).  In a closed graph, for a start vertex that is a key and a target
  reachable from it, \<open>find_shortest_path\<close> returns a walk from the start to the target
  along the edge relation whose number of edges is the hop distance: no walk from the
  start to the target has fewer edges.
\<close>

theorem find_shortest_path_minimal:
  assumes "closed g" and "s \<in> set (get_vertices g)" and "(s, t) \<in> (edge_rel g)\<^sup>*"
  shows "\<exists>p. find_shortest_path g s t = Inr p \<and> p \<noteq> [] \<and> hd p = s \<and> last p = t \<and>
           successively (\<lambda>a b. (a, b) \<in> edge_rel g) p \<and>
           length p - 1 = hop_distance g s t"
proof -
  let ?E = "edge_rel g"
  have "sp_inv ?E (set (get_vertices g)) s [s \<mapsto> [s]] [s]"
    using assms(2) by (auto simp: sp_inv_def good_path_def)
  from shortest_path_loop_inv [OF assms(1) this, of t] assms(3) obtain pd' p where
    l: "shortest_path_loop g t [s \<mapsto> [s]] [s] = Inr pd'" and p: "pd' t = Some p"
    and g: "good_path ?E s t p"
    by (auto simp: dom_def)
  from l p assms(2) have f: "find_shortest_path g s t = Inr p"
    by (simp add: find_shortest_path_def get_vertices_def)
  from g have w: "p \<noteq> []" "hd p = s" "last p = t" "successively (\<lambda>a b. (a, b) \<in> ?E) p"
    and m: "\<And>n. (s, t) \<in> ?E ^^ n \<Longrightarrow> length p \<le> Suc n"
    by (simp_all add: good_path_def)
  from walk_relpow [OF w(1,4)] w(2,3) have r: "(s, t) \<in> ?E ^^ (length p - 1)" by simp
  have "hop_distance g s t = length p - 1"
    unfolding hop_distance_def
  proof (rule Least_equality)
    show "(s, t) \<in> ?E ^^ (length p - 1)" by (rule r)
    fix n assume "(s, t) \<in> ?E ^^ n"
    from m [OF this] show "length p - 1 \<le> n" by simp
  qed
  with f w show ?thesis by simp
qed


lemma g_line_reach: "(''A'', ''D'') \<in> (edge_rel g_line)\<^sup>*"
proof -
  have "(''A'', ''B'') \<in> edge_rel g_line" "(''B'', ''C'') \<in> edge_rel g_line"
    "(''C'', ''D'') \<in> edge_rel g_line"
    by (simp_all add: edge_rel_def arcs_def stored_def g_line_def)
  then show ?thesis by (meson rtrancl.rtrancl_into_rtrancl rtrancl.rtrancl_refl)
qed

theorem find_shortest_path_minimal_witness:
  "closed g_line \<and> ''A'' \<in> set (get_vertices g_line) \<and> (''A'', ''D'') \<in> (edge_rel g_line)\<^sup>* \<and>
   find_shortest_path g_line ''A'' ''D'' = Inr [''A'', ''B'', ''C'', ''D''] \<and>
   hop_distance g_line ''A'' ''D'' = 3"
proof -
  have h: "''A'' \<in> set (get_vertices g_line)"
    by (simp add: g_line_def get_vertices_def)
  from find_shortest_path_minimal [OF closed_g_line h g_line_reach] find_shortest_path_line
  have "hop_distance g_line ''A'' ''D'' = 3" by auto
  with closed_g_line h g_line_reach find_shortest_path_line show ?thesis by simp
qed

text \<open>
  On the graph with the edge (A, B) to an id that is no vertex, D is reachable from A
  by A, C, D, but B is dequeued before C and the lookup of its adjacency list raises.
\<close>

theorem find_shortest_path_dangling_counterexample:
  "''A'' \<in> set (get_vertices g_dangling) \<and> (''A'', ''D'') \<in> (edge_rel g_dangling)\<^sup>* \<and>
   find_shortest_path g_dangling ''A'' ''D'' = Inl KeyError"
proof -
  have "(''A'', ''C'') \<in> edge_rel g_dangling" "(''C'', ''D'') \<in> edge_rel g_dangling"
    by (simp_all add: edge_rel_def arcs_def stored_def g_dangling_def)
  then have "(''A'', ''D'') \<in> (edge_rel g_dangling)\<^sup>*"
    by (meson rtrancl.rtrancl_into_rtrancl rtrancl.rtrancl_refl)
  moreover have "find_shortest_path g_dangling ''A'' ''D'' = Inl KeyError"
    by (simp add: find_shortest_path_def g_dangling_def get_neighbors_def getitem_def)
  moreover have "''A'' \<in> set (get_vertices g_dangling)"
    by (simp add: get_vertices_def g_dangling_def)
  ultimately show ?thesis by simp
qed

subsection \<open>Connected components\<close>

text \<open>Python's \<open>list.remove(x)\<close>: the first occurrence goes, \<open>ValueError\<close> when there is none.\<close>

definition list_remove :: "'a list \<Rightarrow> 'a \<Rightarrow> error + 'a list" where
  "list_remove xs x = (if x \<in> set xs then Inr (remove1 x xs) else Inl ValueError)"

text \<open>The \<open>for\<close> loop of \<open>find_connected_components\<close> over the neighbours of the current vertex.\<close>

fun component_neighbors ::
  "vid list \<Rightarrow> vid set \<Rightarrow> vid list \<Rightarrow> vid list \<Rightarrow> error + vid set \<times> vid list \<times> vid list" where
  "component_neighbors [] seen not_visited queue = Inr (seen, not_visited, queue)"
| "component_neighbors (neighbor_id # rest) seen not_visited queue =
     (if neighbor_id \<notin> seen then
        (case list_remove not_visited neighbor_id of
           Inl e \<Rightarrow> Inl e
         | Inr not_visited' \<Rightarrow>
             component_neighbors rest (insert neighbor_id seen) not_visited' (queue @ [neighbor_id]))
      else component_neighbors rest seen not_visited queue)"

lemma component_neighbors_measure:
  "component_neighbors ns seen nv q = Inr (seen', nv', q') \<Longrightarrow>
   2 * length nv' + length q' \<le> 2 * length nv + length q"
proof (induction ns arbitrary: seen nv q)
  case Nil
  then show ?case by simp
next
  case (Cons n ns)
  show ?case
  proof (cases "n \<in> seen")
    case True
    with Cons show ?thesis by simp
  next
    case False
    with Cons.prems have m: "n \<in> set nv"
      and c: "component_neighbors ns (insert n seen) (remove1 n nv) (q @ [n]) = Inr (seen', nv', q')"
      by (auto simp: list_remove_def split: if_splits)
    from m have "Suc (length (remove1 n nv)) = length nv"
      using length_pos_if_in_set [OF m] by (simp add: length_remove1)
    with Cons.IH [OF c] show ?thesis by simp
  qed
qed

text \<open>The inner \<open>while queue\<close> loop: the breadth-first search of one component.\<close>

function component_bfs ::
  "Graph \<Rightarrow> vid set \<Rightarrow> vid list \<Rightarrow> vid list \<Rightarrow> error + vid set \<times> vid list" where
  "component_bfs g seen not_visited [] = Inr (seen, not_visited)"
| "component_bfs g seen not_visited (current_vertex_id # queue) =
     (case get_neighbors g current_vertex_id of
        Inl e \<Rightarrow> Inl e
      | Inr neighbors \<Rightarrow>
          (case component_neighbors neighbors seen not_visited queue of
             Inl e \<Rightarrow> Inl e
           | Inr (seen', not_visited', queue') \<Rightarrow> component_bfs g seen' not_visited' queue'))"
  by pat_completeness auto
termination
proof (relation "measure (\<lambda>(g, seen, nv, queue). 2 * length nv + length queue)", goal_cases)
  case 1
  show ?case by simp
next
  case (2 g seen nv cur queue ns st seen' rest nv' queue')
  from 2(2,3,4) have "component_neighbors ns seen nv queue = Inr (seen', nv', queue')"
    by simp
  from component_neighbors_measure [OF this] show ?case by simp
qed

lemma component_bfs_length:
  "component_bfs g seen nv queue = Inr (seen', nv') \<Longrightarrow> length nv' \<le> length nv"
proof (induction g seen nv queue rule: component_bfs.induct)
  case (1 g seen nv)
  then show ?case by simp
next
  case (2 g seen nv cur queue)
  from "2.prems" obtain ns where ns: "get_neighbors g cur = Inr ns"
    by (cases "get_neighbors g cur") auto
  with "2.prems" obtain seen1 nv1 q1 where
    c: "component_neighbors ns seen nv queue = Inr (seen1, nv1, q1)"
    by (cases "component_neighbors ns seen nv queue") auto
  with "2.prems" ns have r: "component_bfs g seen1 nv1 q1 = Inr (seen', nv')" by simp
  have "length nv1 \<le> length nv"
    using c
  proof (induction ns arbitrary: seen nv queue)
    case Nil
    then show ?case by simp
  next
    case (Cons n ns)
    show ?case
    proof (cases "n \<in> seen")
      case True
      with Cons show ?thesis by simp
    next
      case False
      with Cons.prems
      have "component_neighbors ns (insert n seen) (remove1 n nv) (queue @ [n]) = Inr (seen1, nv1, q1)"
        by (auto simp: list_remove_def split: if_splits)
      from Cons.IH [OF this] show ?thesis by (simp add: length_remove1 split: if_splits)
    qed
  qed
  with "2.IH" [OF ns c refl refl r] show ?case by simp
qed

text \<open>
  The outer \<open>while not_visited\<close> loop.  \<open>pop()\<close> takes the last element.  A component
  is the set \<open>seen\<close>; the order in which \<open>list(seen)\<close> lists it is not determined by the
  source.
\<close>

function components_loop :: "Graph \<Rightarrow> vid list \<Rightarrow> vid set list \<Rightarrow> error + vid set list" where
  "components_loop g not_visited components =
     (if not_visited = [] then Inr components
      else
        (case component_bfs g {last not_visited} (butlast not_visited) [last not_visited] of
           Inl e \<Rightarrow> Inl e
         | Inr (seen, not_visited') \<Rightarrow> components_loop g not_visited' (components @ [seen])))"
  by pat_completeness auto
termination
proof (relation "measure (\<lambda>(g, nv, components). length nv)", goal_cases)
  case 1
  show ?case by simp
next
  case (2 g nv components st seen nv')
  from 2 have "component_bfs g {last nv} (butlast nv) [last nv] = Inr (seen, nv')"
    by simp
  from component_bfs_length [OF this] have "length nv' \<le> length nv - 1" by simp
  moreover from 2(1) have "length nv \<noteq> 0" by simp
  ultimately have "length nv' < length nv" by arith
  then show ?case by simp
qed

definition find_connected_components :: "Graph \<Rightarrow> error + vid set list" where
  "find_connected_components g = components_loop g (map fst (vertex_dict g)) []"


text \<open>
  The directed graph with vertices A, B (added in this order) and the edge (A, B).
\<close>

definition g_arc :: Graph where
  "g_arc = \<lparr>vertex_dict = [(''A'', [''B'']), (''B'', [])], is_directed = True\<rparr>"

text \<open>
  C4, at the failing input.  On \<open>g_arc\<close> the first component is B alone (popped last
  key first); the search from A then meets B, which is not in the fresh \<open>seen\<close> set and no
  longer in \<open>not_visited\<close>, and \<open>not_visited.remove\<close> raises \<open>ValueError\<close>: no list of
  components is returned.  On the undirected line graph the components are returned.
\<close>

theorem find_connected_components_directed_raises:
  "find_connected_components g_arc = Inl ValueError"
  by (simp add: find_connected_components_def g_arc_def get_neighbors_def getitem_def
      list_remove_def)

lemma find_connected_components_line:
  "find_connected_components g_line = Inr [{''A'', ''B'', ''C'', ''D''}]"
  by (simp add: find_connected_components_def g_line_def get_neighbors_def getitem_def
      list_remove_def insert_commute)

subsection \<open>Cycle detection and topological sort\<close>

text \<open>
  The nested recursive function of \<open>contains_cycle\<close>.  It shares the list
  \<open>not_visited\<close> and the set \<open>current_path\<close> with the enclosing call; both are passed
  and returned here.  The recursion is bounded by fuel: \<open>None\<close> means the fuel ran out.
  \<open>cycle_dfs_for\<close> is the \<open>for\<close> loop over the neighbours, with the local flag
  \<open>contains_cycle\<close>; \<open>set.remove\<close> raises \<open>KeyError\<close> for a missing element.
\<close>

fun cycle_dfs ::
    "nat \<Rightarrow> Graph \<Rightarrow> vid \<Rightarrow> vid list \<times> vid set \<Rightarrow> (error + bool \<times> vid list \<times> vid set) option"
  and cycle_dfs_for ::
    "nat \<Rightarrow> Graph \<Rightarrow> vid \<Rightarrow> vid list \<Rightarrow> bool \<Rightarrow> vid list \<times> vid set \<Rightarrow>
       (error + bool \<times> vid list \<times> vid set) option" where
  "cycle_dfs 0 g start_vertex st = None"
| "cycle_dfs (Suc fuel) g start_vertex st =
     (case get_neighbors g start_vertex of
        Inl e \<Rightarrow> Some (Inl e)
      | Inr neighbors \<Rightarrow> cycle_dfs_for fuel g start_vertex neighbors False st)"
| "cycle_dfs_for fuel g start_vertex [] contains_cycle (not_visited, current_path) =
     (if start_vertex \<in> current_path
      then Some (Inr (contains_cycle, not_visited, current_path - {start_vertex}))
      else Some (Inl KeyError))"
| "cycle_dfs_for fuel g start_vertex (neighbor # rest) contains_cycle (not_visited, current_path) =
     (if neighbor \<in> set not_visited then
        (case cycle_dfs fuel g neighbor (remove1 neighbor not_visited, insert neighbor current_path) of
           None \<Rightarrow> None
         | Some (Inl e) \<Rightarrow> Some (Inl e)
         | Some (Inr (contains_cycle', st')) \<Rightarrow> cycle_dfs_for fuel g start_vertex rest contains_cycle' st')
      else if neighbor \<in> current_path then Some (Inr (True, not_visited, current_path))
      else cycle_dfs_for fuel g start_vertex rest contains_cycle (not_visited, current_path))"

text \<open>
  \<open>contains_cycle\<close>: the body of the \<open>while\<close> loop ends with \<open>return\<close>, so only the
  vertex popped first is searched.  With no vertex the function falls off its end and
  the result is Python's \<open>None\<close> (here the inner \<open>None\<close>).
\<close>

definition contains_cycle :: "nat \<Rightarrow> Graph \<Rightarrow> (error + bool option) option" where
  "contains_cycle fuel g =
     (let not_visited = map fst (vertex_dict g) in
      if not_visited = [] then Some (Inr None)
      else
        (case cycle_dfs fuel g (last not_visited) (butlast not_visited, {last not_visited}) of
           None \<Rightarrow> None
         | Some (Inl e) \<Rightarrow> Some (Inl e)
         | Some (Inr (b, st)) \<Rightarrow> Some (Inr (Some b))))"

text \<open>The nested recursive function of \<open>topological_sort\<close>, on \<open>not_visited\<close> and \<open>stack\<close>.\<close>

fun topo_dfs ::
    "nat \<Rightarrow> Graph \<Rightarrow> vid \<Rightarrow> vid list \<times> vid list \<Rightarrow> (error + vid list \<times> vid list) option"
  and topo_dfs_for ::
    "nat \<Rightarrow> Graph \<Rightarrow> vid \<Rightarrow> vid list \<Rightarrow> vid list \<times> vid list \<Rightarrow>
       (error + vid list \<times> vid list) option" where
  "topo_dfs 0 g start_vertex st = None"
| "topo_dfs (Suc fuel) g start_vertex st =
     (case get_neighbors g start_vertex of
        Inl e \<Rightarrow> Some (Inl e)
      | Inr neighbors \<Rightarrow> topo_dfs_for fuel g start_vertex neighbors st)"
| "topo_dfs_for fuel g start_vertex [] (not_visited, stack) =
     Some (Inr (not_visited, stack @ [start_vertex]))"
| "topo_dfs_for fuel g start_vertex (neighbor # rest) (not_visited, stack) =
     (if neighbor \<in> set not_visited then
        (case topo_dfs fuel g neighbor (remove1 neighbor not_visited, stack) of
           None \<Rightarrow> None
         | Some (Inl e) \<Rightarrow> Some (Inl e)
         | Some (Inr st') \<Rightarrow> topo_dfs_for fuel g start_vertex rest st')
      else topo_dfs_for fuel g start_vertex rest (not_visited, stack))"

text \<open>The \<open>while not_visited\<close> loop of \<open>topological_sort\<close>.\<close>

fun topo_loop :: "nat \<Rightarrow> Graph \<Rightarrow> vid list \<Rightarrow> vid list \<Rightarrow> (error + vid list) option" where
  "topo_loop 0 g not_visited stack = None"
| "topo_loop (Suc fuel) g not_visited stack =
     (if not_visited = [] then Some (Inr stack)
      else
        (case topo_dfs fuel g (last not_visited) (butlast not_visited, stack) of
           None \<Rightarrow> None
         | Some (Inl e) \<Rightarrow> Some (Inl e)
         | Some (Inr (not_visited', stack')) \<Rightarrow> topo_loop fuel g not_visited' stack'))"

text \<open>
  What \<open>topological_sort\<close> hands to its caller by \<open>return\<close>: the ordering, or the
  \<open>ValueError\<close> instance that line 326 constructs and returns without raising it.
\<close>

datatype topo_result = Ordering "vid list" | ValueErrorObject

definition topological_sort :: "nat \<Rightarrow> Graph \<Rightarrow> (error + topo_result) option" where
  "topological_sort fuel g =
     (case contains_cycle fuel g of
        None \<Rightarrow> None
      | Some (Inl e) \<Rightarrow> Some (Inl e)
      | Some (Inr c) \<Rightarrow>
          if c = Some True then Some (Inr ValueErrorObject)
          else
            (case topo_loop fuel g (map fst (vertex_dict g)) [] of
               None \<Rightarrow> None
             | Some (Inl e) \<Rightarrow> Some (Inl e)
             | Some (Inr stack) \<Rightarrow> Some (Inr (Ordering (rev stack)))))"

definition g_two_cycle :: Graph where
  "g_two_cycle = \<lparr>vertex_dict = [(''A'', [''B'']), (''B'', [''A''])], is_directed = True\<rparr>"

definition g_cycle_iso :: Graph where
  "g_cycle_iso = \<lparr>vertex_dict = [(''A'', [''B'']), (''B'', [''A'']), (''C'', [])],
                  is_directed = True\<rparr>"

definition g_diamond :: Graph where
  "g_diamond = \<lparr>vertex_dict = [(''A'', [''B'', ''C'']), (''B'', [''D'']), (''C'', [''D'']), (''D'', [])],
                is_directed = True\<rparr>"

lemma contains_cycle_two_cycle:
  "contains_cycle (n + 3) g_two_cycle = Some (Inr (Some True))"
  by (simp add: contains_cycle_def g_two_cycle_def get_neighbors_def getitem_def
      eval_nat_numeral)

lemma contains_cycle_misses_cycle:
  "contains_cycle (n + 1) g_cycle_iso = Some (Inr (Some False))"
  by (simp add: contains_cycle_def g_cycle_iso_def get_neighbors_def getitem_def
      eval_nat_numeral)

lemma topological_sort_diamond:
  "topological_sort (n + 6) g_diamond = Some (Inr (Ordering [''A'', ''B'', ''C'', ''D'']))"
  by (simp add: topological_sort_def contains_cycle_def g_diamond_def get_neighbors_def
      getitem_def eval_nat_numeral)

lemma two_cycle_is_cyclic:
  "(''A'', ''A'') \<in> (edge_rel g_two_cycle)\<^sup>+" "(''A'', ''A'') \<in> (edge_rel g_cycle_iso)\<^sup>+"
proof -
  have "(''A'', ''B'') \<in> edge_rel g_two_cycle" "(''B'', ''A'') \<in> edge_rel g_two_cycle"
    by (simp_all add: edge_rel_def arcs_def stored_def g_two_cycle_def)
  then show "(''A'', ''A'') \<in> (edge_rel g_two_cycle)\<^sup>+" by (rule trancl_into_trancl2 [OF _ r_into_trancl])
  have "(''A'', ''B'') \<in> edge_rel g_cycle_iso" "(''B'', ''A'') \<in> edge_rel g_cycle_iso"
    by (simp_all add: edge_rel_def arcs_def stored_def g_cycle_iso_def)
  then show "(''A'', ''A'') \<in> (edge_rel g_cycle_iso)\<^sup>+" by (rule trancl_into_trancl2 [OF _ r_into_trancl])
qed

text \<open>
  C7, at the failing inputs.  Both graphs contain the cycle A, B, A.  On \<open>g_cycle_iso\<close>
  (vertices A, B, C added in this order, C isolated) \<open>contains_cycle\<close> searches from C
  only and answers \<open>False\<close>, and \<open>topological_sort\<close> returns the ordering B, A, C with no
  error at all.  On \<open>g_two_cycle\<close> the cycle is found, and \<open>topological_sort\<close> returns
  the \<open>ValueError\<close> instance as an ordinary result: nothing is raised.  Both hold for
  every amount of fuel from the stated one on.
\<close>

theorem topological_sort_cyclic_not_raised:
  "(''A'', ''A'') \<in> (edge_rel g_cycle_iso)\<^sup>+ \<and>
   topological_sort (n + 4) g_cycle_iso = Some (Inr (Ordering [''B'', ''A'', ''C''])) \<and>
   (''A'', ''A'') \<in> (edge_rel g_two_cycle)\<^sup>+ \<and>
   topological_sort (n + 3) g_two_cycle = Some (Inr ValueErrorObject)"
proof -
  have "topological_sort (n + 4) g_cycle_iso = Some (Inr (Ordering [''B'', ''A'', ''C'']))"
    by (simp add: topological_sort_def contains_cycle_def g_cycle_iso_def get_neighbors_def
        getitem_def eval_nat_numeral)
  moreover have "topological_sort (n + 3) g_two_cycle = Some (Inr ValueErrorObject)"
    by (simp add: topological_sort_def contains_cycle_def g_two_cycle_def get_neighbors_def
        getitem_def eval_nat_numeral)
  ultimately show ?thesis using two_cycle_is_cyclic by simp
qed

end
